theory Spec2Isabelle
  imports Complex_Main
begin

section \<open>Ear clipping: the data model\<close>

text \<open>
  \<^verbatim>\<open>struct Vec2f { float x, y; };\<close>

  The coordinates are C++ floats. The model keeps their type a parameter \<open>'a\<close>: the
  functions use nothing of it but \<open>+\<close>, \<open>-\<close>, \<open>*\<close>, the constant \<open>0\<close> and the
  comparison \<open><\<close>, and the theorems assume no algebraic law of these operations (no
  associativity, no distributivity, no exactness). The sort \<open>preorder\<close> is there only
  for \<open>x < x\<close> being false. The comparison of floats is irreflexive and transitive,
  also when a NaN takes part (read \<open>x \<le> y\<close> as \<open>x < y\<close> or \<open>x\<close> identical to \<open>y\<close>; the
  code never uses \<open>\<le>\<close>), so what is proved below holds for the float operations as
  it does for exact ones. Concrete runs are evaluated at type \<open>int\<close>, on small
  integer coordinates. One property, the sign of the sum on a reversed sequence, does
  depend on rounding; for it the file has a model of the binary32 operations, which is
  an instance of the same sort.

  Indices and sizes are natural numbers. The source counts with \<^verbatim>\<open>int\<close> and
  \<^verbatim>\<open>unsigned int\<close>, which agree with the natural numbers as long as a sequence has
  fewer than \<open>2\<^sup>3\<^sup>1\<close> elements; this is assumed throughout.
\<close>

record 'a Vec2f =
  x :: 'a
  y :: 'a

text \<open>\<^verbatim>\<open>std::array<Vec2f, 3>\<close>: the three points in order, as a list.\<close>

type_synonym 'a triangle = "'a Vec2f list"

text \<open>
  \<^verbatim>\<open>vertices[i]\<close> on a \<^verbatim>\<open>std::vector\<close> is undefined when \<open>i\<close> is not below the size.
  The model makes every such access a value: the error names the place of the access
  and the index.
\<close>

datatype site = In_isClockwise | In_isEar | In_scan | In_last_triangle

datatype error = OutOfRange site nat

definition subscript :: "site \<Rightarrow> 'b list \<Rightarrow> nat \<Rightarrow> error + 'b" where
  "subscript s vertices i = (if i < length vertices then Inr (vertices ! i) else Inl (OutOfRange s i))"

section \<open>Vector primitives\<close>

definition operator_plus :: "('a::plus) Vec2f \<Rightarrow> 'a Vec2f \<Rightarrow> 'a Vec2f" where
  "operator_plus vec1 vec2 = \<lparr>x = x vec1 + x vec2, y = y vec1 + y vec2\<rparr>"

definition operator_minus :: "('a::minus) Vec2f \<Rightarrow> 'a Vec2f \<Rightarrow> 'a Vec2f" where
  "operator_minus vec1 vec2 = \<lparr>x = x vec1 - x vec2, y = y vec1 - y vec2\<rparr>"

definition crossProduct :: "('a::{minus,times}) Vec2f \<Rightarrow> 'a Vec2f \<Rightarrow> 'a" where
  "crossProduct a b = x a * y b - y a * x b"

section \<open>Orientation\<close>

text \<open>
  The \<^verbatim>\<open>for\<close> loop of \<^verbatim>\<open>isClockwise\<close>, from index \<open>i\<close> with the running
  \<^verbatim>\<open>sum\<close>, here \<open>sum0\<close>.
\<close>

function isClockwise_loop ::
  "('a::{plus,minus,times}) Vec2f list \<Rightarrow> nat \<Rightarrow> 'a \<Rightarrow> error + 'a" where
  "isClockwise_loop vertices i sum0 =
     (if i < length vertices then
        (case subscript In_isClockwise vertices i of
           Inl e \<Rightarrow> Inl e
         | Inr current \<Rightarrow>
             (case subscript In_isClockwise vertices ((i + 1) mod length vertices) of
                Inl e \<Rightarrow> Inl e
              | Inr next \<Rightarrow>
                  isClockwise_loop vertices (i + 1)
                    (sum0 + (x next - x current) * (y next + y current))))
      else Inr sum0)"
  by pat_completeness auto
termination
  by (relation "measure (\<lambda>(vertices, i, sum0). length vertices - i)") auto

declare isClockwise_loop.simps [simp del]

definition isClockwise ::
  "('a::{plus,minus,times,zero,preorder}) Vec2f list \<Rightarrow> error + bool" where
  "isClockwise vertices =
     (case isClockwise_loop vertices 0 0 of
        Inl e \<Rightarrow> Inl e
      | Inr sum0 \<Rightarrow> Inr (sum0 > 0))"

section \<open>Convexity and containment\<close>

definition isConvex ::
  "('a::{plus,minus,times,zero,preorder}) Vec2f \<Rightarrow> 'a Vec2f \<Rightarrow> 'a Vec2f \<Rightarrow> bool" where
  "isConvex prev current next =
     (let prevEdge = operator_minus prev current;
          nextEdge = operator_minus next current
      in crossProduct prevEdge nextEdge > 0)"

definition isPointInsideTriangle ::
  "('a::{plus,minus,times,zero,preorder}) Vec2f \<Rightarrow> 'a Vec2f \<Rightarrow> 'a Vec2f \<Rightarrow> 'a Vec2f \<Rightarrow> bool" where
  "isPointInsideTriangle point prev current next =
     (let prevToCurrent = operator_minus current prev;
          currentToNext = operator_minus next current;
          nextToPrev = operator_minus prev next;
          prevToPoint = operator_minus point prev;
          currentToPoint = operator_minus point current;
          nextToPoint = operator_minus point next;
          alpha = crossProduct prevToCurrent prevToPoint;
          beta = crossProduct currentToNext currentToPoint;
          gamma = crossProduct nextToPrev nextToPoint
      in if alpha > 0 \<or> beta > 0 \<or> gamma > 0 then False else True)"

section \<open>The ear test\<close>

text \<open>The \<^verbatim>\<open>for\<close> loop of \<^verbatim>\<open>isEar\<close>, from index \<open>j\<close>.\<close>

function isEar_loop ::
  "('a::{plus,minus,times,zero,preorder}) Vec2f list \<Rightarrow> nat \<Rightarrow> nat \<Rightarrow> nat \<Rightarrow>
     'a Vec2f \<Rightarrow> 'a Vec2f \<Rightarrow> 'a Vec2f \<Rightarrow> nat \<Rightarrow> error + bool" where
  "isEar_loop vertices prevIndex currentIndex nextIndex prev current next j =
     (if j < length vertices then
        (if j \<noteq> prevIndex \<and> j \<noteq> currentIndex \<and> j \<noteq> nextIndex then
           (case subscript In_isEar vertices j of
              Inl e \<Rightarrow> Inl e
            | Inr point \<Rightarrow>
                if isPointInsideTriangle point prev current next then Inr False
                else isEar_loop vertices prevIndex currentIndex nextIndex prev current next (j + 1))
         else isEar_loop vertices prevIndex currentIndex nextIndex prev current next (j + 1))
      else Inr True)"
  by pat_completeness auto
termination
  by (relation "measure (\<lambda>(vertices, p, c, n, a, b, d, j). length vertices - j)") auto

declare isEar_loop.simps [simp del]

definition isEar ::
  "('a::{plus,minus,times,zero,preorder}) Vec2f list \<Rightarrow> nat \<Rightarrow> nat \<Rightarrow> nat \<Rightarrow> error + bool" where
  "isEar vertices prevIndex currentIndex nextIndex =
     (case subscript In_isEar vertices prevIndex of
        Inl e \<Rightarrow> Inl e
      | Inr prev \<Rightarrow>
          (case subscript In_isEar vertices currentIndex of
             Inl e \<Rightarrow> Inl e
           | Inr current \<Rightarrow>
               (case subscript In_isEar vertices nextIndex of
                  Inl e \<Rightarrow> Inl e
                | Inr next \<Rightarrow>
                    isEar_loop vertices prevIndex currentIndex nextIndex prev current next 0)))"

section \<open>The triangulator\<close>

text \<open>\<^verbatim>\<open>vertices.erase(vertices.begin() + i)\<close>\<close>

definition erase :: "'b list \<Rightarrow> nat \<Rightarrow> 'b list" where
  "erase vertices i = take i vertices @ drop (Suc i) vertices"

text \<open>
  The inner \<^verbatim>\<open>for\<close> loop of \<^verbatim>\<open>triangulate\<close>, from index \<open>i\<close>. It passes the state it
  mutates, the vertices and the triangles, and returns it with \<^verbatim>\<open>earFound\<close>.
  \<^verbatim>\<open>(i - 1 + vertices.size()) % vertices.size()\<close> is computed in \<^verbatim>\<open>size_t\<close>; for
  \<open>0 \<le> i < size\<close> the wrapped sum is the integer \<open>i - 1 + size\<close>, which is what is
  written here.
\<close>

function scan ::
  "('a::{plus,minus,times,zero,preorder}) Vec2f list \<Rightarrow> 'a triangle list \<Rightarrow> nat \<Rightarrow>
     error + ('a Vec2f list \<times> 'a triangle list \<times> bool)" where
  "scan vertices triangles i =
     (if i < length vertices then
        (let prevIndex = nat ((int i - 1 + int (length vertices)) mod int (length vertices));
             currentIndex = i;
             nextIndex = (i + 1) mod length vertices
         in case subscript In_scan vertices prevIndex of
              Inl e \<Rightarrow> Inl e
            | Inr prev \<Rightarrow>
                (case subscript In_scan vertices currentIndex of
                   Inl e \<Rightarrow> Inl e
                 | Inr current \<Rightarrow>
                     (case subscript In_scan vertices nextIndex of
                        Inl e \<Rightarrow> Inl e
                      | Inr next \<Rightarrow>
                          if isConvex prev current next then
                            (case isEar vertices prevIndex currentIndex nextIndex of
                               Inl e \<Rightarrow> Inl e
                             | Inr ear \<Rightarrow>
                                 if ear then
                                   Inr (erase vertices i, triangles @ [[prev, current, next]], True)
                                 else scan vertices triangles (i + 1))
                          else scan vertices triangles (i + 1))))
      else Inr (vertices, triangles, False))"
  by pat_completeness auto
termination
  by (relation "measure (\<lambda>(vertices, triangles, i). length vertices - i)") auto

declare scan.simps [simp del]

text \<open>
  The \<^verbatim>\<open>while (vertices.size() > 3)\<close> loop. Nothing in its text bounds the number of
  rounds, so it is a partial function: \<open>None\<close> is a loop that never ends.
\<close>

partial_function (option) clipLoop ::
  "('a::{plus,minus,times,zero,preorder}) Vec2f list \<Rightarrow> 'a triangle list \<Rightarrow>
     (error + ('a Vec2f list \<times> 'a triangle list)) option" where
  "clipLoop vertices triangles =
     (if length vertices > 3 then
        (case scan vertices triangles 0 of
           Inl e \<Rightarrow> Some (Inl e)
         | Inr (vertices', triangles', earFound) \<Rightarrow>
             if \<not> earFound then Some (Inr (vertices', triangles'))
             else clipLoop vertices' triangles')
      else Some (Inr (vertices, triangles)))"

declare clipLoop.simps [code]

text \<open>\<^verbatim>\<open>triangles.push_back({vertices[0], vertices[1], vertices[2]})\<close>\<close>

definition lastTriangle :: "'b list \<Rightarrow> error + 'b list" where
  "lastTriangle vertices =
     (case subscript In_last_triangle vertices 0 of
        Inl e \<Rightarrow> Inl e
      | Inr v0 \<Rightarrow>
          (case subscript In_last_triangle vertices 1 of
             Inl e \<Rightarrow> Inl e
           | Inr v1 \<Rightarrow>
               (case subscript In_last_triangle vertices 2 of
                  Inl e \<Rightarrow> Inl e
                | Inr v2 \<Rightarrow> Inr [v0, v1, v2])))"

text \<open>
  \<^verbatim>\<open>triangulate\<close> takes its argument by reference and changes it, so the model returns
  the triangles together with the vertex sequence as it is left to the caller.
\<close>

definition triangulate ::
  "('a::{plus,minus,times,zero,preorder}) Vec2f list \<Rightarrow>
     (error + ('a triangle list \<times> 'a Vec2f list)) option" where
  "triangulate vertices =
     (case isClockwise vertices of
        Inl e \<Rightarrow> Some (Inl e)
      | Inr clockwise \<Rightarrow>
          (case clipLoop (if \<not> clockwise then rev vertices else vertices) [] of
             None \<Rightarrow> None
           | Some (Inl e) \<Rightarrow> Some (Inl e)
           | Some (Inr (vertices', triangles)) \<Rightarrow>
               (case lastTriangle vertices' of
                  Inl e \<Rightarrow> Some (Inl e)
                | Inr t \<Rightarrow> Some (Inr (triangles @ [t], vertices')))))"

section \<open>Notions used in the statements\<close>

text \<open>
  The neighbours of index \<open>i\<close> as the scan computes them, the triangle
  \<^verbatim>\<open>{prev, current, next}\<close> it pushes at \<open>i\<close>, and its condition at \<open>i\<close>:
  \<^verbatim>\<open>isConvex(prev, current, next) && isEar(vertices, prevIndex, currentIndex, nextIndex)\<close>.
\<close>

definition prevOf :: "'b list \<Rightarrow> nat \<Rightarrow> nat" where
  "prevOf vertices i = nat ((int i - 1 + int (length vertices)) mod int (length vertices))"

definition nextOf :: "'b list \<Rightarrow> nat \<Rightarrow> nat" where
  "nextOf vertices i = (i + 1) mod length vertices"

definition earTriangle :: "'b list \<Rightarrow> nat \<Rightarrow> 'b list" where
  "earTriangle vertices i =
     [vertices ! prevOf vertices i, vertices ! i, vertices ! nextOf vertices i]"

definition earAt :: "('a::{plus,minus,times,zero,preorder}) Vec2f list \<Rightarrow> nat \<Rightarrow> bool" where
  "earAt vertices i =
     (isConvex (vertices ! prevOf vertices i) (vertices ! i) (vertices ! nextOf vertices i) \<and>
      isEar vertices (prevOf vertices i) i (nextOf vertices i) = Inr True)"

text \<open>The summand of \<^verbatim>\<open>isClockwise\<close> at index \<open>i\<close>.\<close>

definition shoelaceTerm :: "('a::{plus,minus,times}) Vec2f list \<Rightarrow> nat \<Rightarrow> 'a" where
  "shoelaceTerm vertices i =
     (x (vertices ! ((i + 1) mod length vertices)) - x (vertices ! i)) *
     (y (vertices ! ((i + 1) mod length vertices)) + y (vertices ! i))"

text \<open>
  The vertex sequence as the clipping loop receives it: reversed unless
  \<^verbatim>\<open>isClockwise\<close> says true.
\<close>

definition normalized :: "('a::{plus,minus,times,zero,preorder}) Vec2f list \<Rightarrow> 'a Vec2f list" where
  "normalized vertices = (if isClockwise vertices = Inr True then vertices else rev vertices)"

text \<open>
  One round of the \<^verbatim>\<open>while\<close> loop that finds an ear: more than three vertices, and the
  scan comes back with \<^verbatim>\<open>earFound\<close> set. Its reflexive transitive closure
  \<open>clipRound\<^sup>*\<^sup>*\<close> gives the states the loop passes through.
\<close>

definition clipRound ::
  "('a::{plus,minus,times,zero,preorder}) Vec2f list \<times> 'a triangle list \<Rightarrow>
     'a Vec2f list \<times> 'a triangle list \<Rightarrow> bool" where
  "clipRound s s' = (3 < length (fst s) \<and> scan (fst s) (snd s) 0 = Inr (fst s', snd s', True))"

section \<open>The float operations\<close>

text \<open>
  \<^verbatim>\<open>float\<close> as IEEE binary32 with the default rounding. A finite value is the
  rational number it stands for; the two zeros are one value, since \<open>+\<close>, \<open>-\<close>, \<open>*\<close>
  and \<open><\<close> cannot tell them apart. \<open>round32\<close> takes an exact result to the nearest
  value with a 24-bit significand and an exponent from \<open>-126\<close> to \<open>127\<close>, ties to the
  even significand; below \<open>2\<^sup>-\<^sup>1\<^sup>2\<^sup>6\<close> the spacing stays \<open>2\<^sup>-\<^sup>1\<^sup>4\<^sup>9\<close>, and a result that
  rounds to \<open>2\<^sup>1\<^sup>2\<^sup>8\<close> or more is an infinity. \<open>binade q\<close> is the largest power of two
  not above \<open>q\<close>, kept between \<open>2\<^sup>-\<^sup>1\<^sup>2\<^sup>6\<close> and \<open>2\<^sup>1\<^sup>2\<^sup>7\<close>. The infinities and NaN
  follow IEEE: the sum of opposite infinities and the product of zero and an infinity
  are NaN, an operation on a NaN is a NaN, and a NaN is in no comparison.
\<close>

datatype binary32 = Finite rat | PosInf | NegInf | NaN

fun binadeUp :: "nat \<Rightarrow> rat \<Rightarrow> rat \<Rightarrow> rat" where
  "binadeUp 0 u q = u"
| "binadeUp (Suc fuel) u q = (if q < 2 * u then u else binadeUp fuel (2 * u) q)"

fun binadeDown :: "nat \<Rightarrow> rat \<Rightarrow> rat \<Rightarrow> rat" where
  "binadeDown 0 u q = u"
| "binadeDown (Suc fuel) u q = (if u \<le> q then u else binadeDown fuel (u / 2) q)"

definition binade :: "rat \<Rightarrow> rat" where
  "binade q = (if 1 \<le> q then binadeUp 127 1 q else binadeDown 126 1 q)"

definition roundTo :: "rat \<Rightarrow> rat \<Rightarrow> int \<Rightarrow> rat" where
  "roundTo ulp q n =
     (if 1 / 2 < q / ulp - of_int n \<or> (q / ulp - of_int n = 1 / 2 \<and> odd n)
      then of_int (n + 1) * ulp
      else of_int n * ulp)"

definition roundUlp :: "rat \<Rightarrow> rat \<Rightarrow> rat" where
  "roundUlp ulp q = roundTo ulp q \<lfloor>q / ulp\<rfloor>"

definition roundMagnitude :: "rat \<Rightarrow> rat" where
  "roundMagnitude q = roundUlp (binade q / 2 ^ 23) q"

definition overflow :: "binary32 \<Rightarrow> rat \<Rightarrow> rat \<Rightarrow> binary32" where
  "overflow infinity sign m = (if 2 ^ 128 \<le> m then infinity else Finite (sign * m))"

definition round32 :: "rat \<Rightarrow> binary32" where
  "round32 q =
     (if q = 0 then Finite 0
      else if 0 < q then overflow PosInf 1 (roundMagnitude q)
      else overflow NegInf (- 1) (roundMagnitude (- q)))"

fun negate :: "binary32 \<Rightarrow> binary32" where
  "negate (Finite a) = Finite (- a)"
| "negate PosInf = NegInf"
| "negate NegInf = PosInf"
| "negate NaN = NaN"

instantiation binary32 :: "{zero,plus,minus,times,preorder}"
begin

definition zero_binary32 :: binary32 where
  "zero_binary32 = Finite 0"

fun plus_binary32 :: "binary32 \<Rightarrow> binary32 \<Rightarrow> binary32" where
  "plus_binary32 (Finite a) (Finite b) = round32 (a + b)"
| "plus_binary32 NaN b = NaN"
| "plus_binary32 a NaN = NaN"
| "plus_binary32 PosInf NegInf = NaN"
| "plus_binary32 NegInf PosInf = NaN"
| "plus_binary32 PosInf b = PosInf"
| "plus_binary32 NegInf b = NegInf"
| "plus_binary32 (Finite a) b = b"

definition minus_binary32 :: "binary32 \<Rightarrow> binary32 \<Rightarrow> binary32" where
  "minus_binary32 a b = a + negate b"

fun times_binary32 :: "binary32 \<Rightarrow> binary32 \<Rightarrow> binary32" where
  "times_binary32 (Finite a) (Finite b) = round32 (a * b)"
| "times_binary32 NaN b = NaN"
| "times_binary32 a NaN = NaN"
| "times_binary32 (Finite a) b = (if a = 0 then NaN else if 0 < a then b else negate b)"
| "times_binary32 a (Finite b) = (if b = 0 then NaN else if 0 < b then a else negate a)"
| "times_binary32 PosInf b = b"
| "times_binary32 NegInf b = negate b"

fun less_binary32 :: "binary32 \<Rightarrow> binary32 \<Rightarrow> bool" where
  "less_binary32 (Finite a) (Finite b) = (a < b)"
| "less_binary32 NaN b = False"
| "less_binary32 a NaN = False"
| "less_binary32 a NegInf = False"
| "less_binary32 PosInf b = False"
| "less_binary32 NegInf b = True"
| "less_binary32 (Finite a) PosInf = True"

definition less_eq_binary32 :: "binary32 \<Rightarrow> binary32 \<Rightarrow> bool" where
  "less_eq_binary32 a b = (a < b \<or> a = b)"

instance
proof
  fix a b c :: binary32
  show "(a < b) = (a \<le> b \<and> \<not> b \<le> a)"
    by (cases a; cases b) (auto simp: less_eq_binary32_def)
  show "a \<le> a"
    by (simp add: less_eq_binary32_def)
  show "a \<le> b \<Longrightarrow> b \<le> c \<Longrightarrow> a \<le> c"
    by (cases a; cases b; cases c) (auto simp: less_eq_binary32_def)
qed

end

text \<open>A point with rational coordinates, read as a point with float coordinates.\<close>

definition toBinary32 :: "rat Vec2f \<Rightarrow> binary32 Vec2f" where
  "toBinary32 v = \<lparr>x = Finite (x v), y = Finite (y v)\<rparr>"

definition isBinary32 :: "rat Vec2f \<Rightarrow> bool" where
  "isBinary32 v = (round32 (x v) = Finite (x v) \<and> round32 (y v) = Finite (y v))"

section \<open>Inputs for the concrete runs\<close>

text \<open>
  The square of side 2 listed counter-clockwise, five collinear points, two points,
  and the polygon built in \<^verbatim>\<open>main\<close>. All coordinates are small integers.
\<close>

definition pt :: "int \<Rightarrow> int \<Rightarrow> int Vec2f" where
  "pt a b = \<lparr>x = a, y = b\<rparr>"

definition square :: "int Vec2f list" where
  "square = [pt 0 0, pt 2 0, pt 2 2, pt 0 2]"

definition collinear :: "int Vec2f list" where
  "collinear = [pt 0 0, pt 1 0, pt 2 0, pt 3 0, pt 4 0]"

definition twoPoints :: "int Vec2f list" where
  "twoPoints = [pt 0 0, pt 1 1]"

definition polygon :: "int Vec2f list" where
  "polygon = [pt (-1) (-1), pt (-2) 1, pt 1 1, pt 0 0, pt 3 (-1)]"

text \<open>
  Two inputs with rational coordinates, all of them binary32 values: a right triangle,
  and four points whose summands are near \<open>2\<^sup>2\<^sup>6\<close>, where the spacing of binary32
  is 8.
\<close>

definition rpt :: "rat \<Rightarrow> rat \<Rightarrow> rat Vec2f" where
  "rpt a b = \<lparr>x = a, y = b\<rparr>"

definition corner :: "rat Vec2f list" where
  "corner = [rpt 0 0, rpt 1 0, rpt 0 1]"

definition skew :: "rat Vec2f list" where
  "skew = [rpt (-2) 8191, rpt 1 8, rpt 8192 8192, rpt 0 8]"

section \<open>Accesses\<close>

lemma subscript_in_range: "i < length vertices \<Longrightarrow> subscript s vertices i = Inr (vertices ! i)"
  by (simp add: subscript_def)

lemma subscript_out_of_range: "\<not> i < length vertices \<Longrightarrow> subscript s vertices i = Inl (OutOfRange s i)"
  by (simp add: subscript_def)

lemma prevOf_in_range: "0 < length vertices \<Longrightarrow> prevOf vertices i < length vertices"
  by (simp add: prevOf_def nat_less_iff)

lemma nextOf_in_range: "0 < length vertices \<Longrightarrow> nextOf vertices i < length vertices"
  by (simp add: nextOf_def)

lemma length_erase: "i < length vertices \<Longrightarrow> Suc (length (erase vertices i)) = length vertices"
  by (simp add: erase_def)

lemma set_erase: "set (erase vertices i) \<subseteq> set vertices"
  by (auto simp: erase_def dest: in_set_takeD in_set_dropD)

lemma set_earTriangle: "i < length vertices \<Longrightarrow> set (earTriangle vertices i) \<subseteq> set vertices"
proof -
  assume i: "i < length vertices"
  then have pos: "0 < length vertices" by arith
  show ?thesis
    using i prevOf_in_range [OF pos, of i] nextOf_in_range [OF pos, of i]
    by (simp add: earTriangle_def)
qed

section \<open>The orientation loop stays in range\<close>

lemma isClockwise_loop_in_range: "\<exists>s. isClockwise_loop vertices i sum0 = Inr s"
proof (induction vertices i sum0 rule: isClockwise_loop.induct)
  case (1 vertices i sum0)
  show ?case
  proof (cases "i < length vertices")
    case True
    then have "0 < length vertices" by arith
    then have nx: "(i + 1) mod length vertices < length vertices" by (rule mod_less_divisor)
    obtain s where "isClockwise_loop vertices (i + 1)
        (sum0 + (x (vertices ! ((i + 1) mod length vertices)) - x (vertices ! i)) *
                (y (vertices ! ((i + 1) mod length vertices)) + y (vertices ! i))) = Inr s"
      using "1.IH" [OF True subscript_in_range [OF True] subscript_in_range [OF nx]] by blast
    then show ?thesis
      by (simp add: isClockwise_loop.simps [of vertices i] True subscript_in_range [OF True]
            subscript_in_range [OF nx] del: One_nat_def)
  next
    case False
    then show ?thesis by (simp add: isClockwise_loop.simps [of vertices i])
  qed
qed

lemma isClockwise_in_range: "\<exists>b. isClockwise vertices = Inr b"
proof -
  obtain s where "isClockwise_loop vertices 0 0 = Inr s"
    using isClockwise_loop_in_range by blast
  then show ?thesis by (simp add: isClockwise_def)
qed

lemma length_normalized: "length (normalized vertices) = length vertices"
  by (simp add: normalized_def)

lemma set_normalized: "set (normalized vertices) = set vertices"
  by (simp add: normalized_def)

section \<open>The sum of a reversed sequence, in exact arithmetic\<close>

text \<open>
  In a commutative ring the loop returns the sum of its summands, and the summands
  of the reversed sequence are the negated summands of the sequence, in another
  order.
\<close>

lemma isClockwise_loop_sum:
  fixes vertices :: "('a::comm_ring_1) Vec2f list"
  shows "isClockwise_loop vertices i sum0 =
           Inr (sum0 + (\<Sum>k = i..<length vertices. shoelaceTerm vertices k))"
proof (induction vertices i sum0 rule: isClockwise_loop.induct)
  case (1 vertices i sum0)
  show ?case
  proof (cases "i < length vertices")
    case True
    then have "0 < length vertices" by arith
    then have nx: "(i + 1) mod length vertices < length vertices" by (rule mod_less_divisor)
    have step: "isClockwise_loop vertices i sum0 =
        isClockwise_loop vertices (i + 1) (sum0 + shoelaceTerm vertices i)"
      by (simp add: isClockwise_loop.simps [of vertices i] True subscript_in_range [OF True]
            subscript_in_range [OF nx] shoelaceTerm_def del: One_nat_def)
    have split: "(\<Sum>k = i..<length vertices. shoelaceTerm vertices k) =
        shoelaceTerm vertices i + (\<Sum>k = i + 1..<length vertices. shoelaceTerm vertices k)"
      using True by (simp add: sum.atLeast_Suc_lessThan)
    from "1.IH" [OF True subscript_in_range [OF True] subscript_in_range [OF nx]]
    have "isClockwise_loop vertices (i + 1) (sum0 + shoelaceTerm vertices i) =
        Inr (sum0 + shoelaceTerm vertices i +
             (\<Sum>k = i + 1..<length vertices. shoelaceTerm vertices k))"
      by (simp add: shoelaceTerm_def del: One_nat_def)
    with step split show ?thesis by (simp add: add.assoc)
  next
    case False
    then show ?thesis by (simp add: isClockwise_loop.simps [of vertices i])
  qed
qed

lemma shoelaceTerm_rev_inner:
  fixes vertices :: "('a::comm_ring_1) Vec2f list"
  assumes "k < m" and "length vertices = Suc m"
  shows "shoelaceTerm (rev vertices) k = - shoelaceTerm vertices (m - Suc k)"
proof -
  from assms have a: "rev vertices ! k = vertices ! (m - k)"
    by (simp add: rev_nth)
  from assms have b: "rev vertices ! Suc k = vertices ! (m - Suc k)"
    by (simp add: rev_nth)
  from assms have c: "Suc k mod Suc m = Suc k" by simp
  from assms have d: "Suc (m - Suc k) mod Suc m = m - k" by simp
  show ?thesis
    by (simp add: shoelaceTerm_def assms(2) a b c d algebra_simps)
qed

lemma shoelaceTerm_rev_last:
  fixes vertices :: "('a::comm_ring_1) Vec2f list"
  assumes "length vertices = Suc m"
  shows "shoelaceTerm (rev vertices) m = - shoelaceTerm vertices m"
proof -
  from assms have a: "rev vertices ! m = vertices ! 0"
    by (simp add: rev_nth)
  from assms have b: "rev vertices ! 0 = vertices ! m"
    by (simp add: rev_nth)
  show ?thesis
    by (simp add: shoelaceTerm_def assms a b algebra_simps)
qed

lemma shoelace_rev:
  fixes vertices :: "('a::comm_ring_1) Vec2f list"
  shows "(\<Sum>k = 0..<length vertices. shoelaceTerm (rev vertices) k) =
         - (\<Sum>k = 0..<length vertices. shoelaceTerm vertices k)"
proof (cases "length vertices")
  case 0
  then show ?thesis by simp
next
  case (Suc m)
  have "(\<Sum>k = 0..<m. shoelaceTerm (rev vertices) k) =
        (\<Sum>k = 0..<m. - shoelaceTerm vertices (m - Suc k))"
    by (rule sum.cong) (simp_all add: shoelaceTerm_rev_inner [OF _ Suc])
  also have "\<dots> = - (\<Sum>k = 0..<m. shoelaceTerm vertices (m - Suc k))"
    by (simp add: sum_negf)
  also have "(\<Sum>k = 0..<m. shoelaceTerm vertices (m - Suc k)) =
        (\<Sum>k = 0..<m. shoelaceTerm vertices k)"
    using sum.nat_diff_reindex [of "shoelaceTerm vertices" m]
    by (simp add: atLeast0LessThan)
  finally have inner: "(\<Sum>k = 0..<m. shoelaceTerm (rev vertices) k) =
        - (\<Sum>k = 0..<m. shoelaceTerm vertices k)" .
  show ?thesis
    by (simp add: Suc inner shoelaceTerm_rev_last [OF Suc])
qed

lemma isClockwise_loop_rev:
  fixes vertices :: "('a::comm_ring_1) Vec2f list"
  assumes "isClockwise_loop vertices 0 0 = Inr s"
  shows "isClockwise_loop (rev vertices) 0 0 = Inr (- s)"
  using assms shoelace_rev [of vertices]
  by (simp add: isClockwise_loop_sum)

section \<open>The ear test\<close>

lemma isEar_loop_result:
  "isEar_loop vertices p c n a b d j =
     Inr (\<not> (\<exists>k. j \<le> k \<and> k < length vertices \<and> k \<noteq> p \<and> k \<noteq> c \<and> k \<noteq> n \<and>
                isPointInsideTriangle (vertices ! k) a b d))"
proof (induction vertices p c n a b d j rule: isEar_loop.induct)
  case (1 vertices p c n a b d j)
  note unfold = isEar_loop.simps [of vertices p c n a b d j]
  show ?case
  proof (cases "j < length vertices")
    case False
    then show ?thesis by (auto simp: unfold)
  next
    case inr: True
    have split: "\<And>Q. (\<exists>k. j \<le> k \<and> Q k) = (Q j \<or> (\<exists>k. j + 1 \<le> k \<and> Q k))"
      by (metis Suc_eq_plus1 Suc_leI le_eq_less_or_eq order_refl Suc_leD)
    show ?thesis
    proof (cases "j \<noteq> p \<and> j \<noteq> c \<and> j \<noteq> n")
      case other: True
      show ?thesis
      proof (cases "isPointInsideTriangle (vertices ! j) a b d")
        case True
        with inr other show ?thesis
          by (auto simp: unfold subscript_in_range)
      next
        case False
        from "1.IH"(1) [OF inr other subscript_in_range [OF inr] False] inr other False
        show ?thesis
          by (subst split) (simp add: unfold subscript_in_range)
      qed
    next
      case False
      from "1.IH"(2) [OF inr False] inr False
      show ?thesis
        by (subst split) (auto simp: unfold)
    qed
  qed
qed

lemma isEar_result:
  assumes "p < length vertices" "c < length vertices" "n < length vertices"
  shows "isEar vertices p c n =
     Inr (\<not> (\<exists>j<length vertices. j \<noteq> p \<and> j \<noteq> c \<and> j \<noteq> n \<and>
                isPointInsideTriangle (vertices ! j) (vertices ! p) (vertices ! c) (vertices ! n)))"
  by (simp add: isEar_def subscript_in_range [OF assms(1)] subscript_in_range [OF assms(2)]
        subscript_in_range [OF assms(3)] isEar_loop_result)

section \<open>One scan\<close>

lemma scan_unfold:
  assumes inr: "i < length vertices"
  shows "scan vertices triangles i =
     (if earAt vertices i
      then Inr (erase vertices i, triangles @ [earTriangle vertices i], True)
      else scan vertices triangles (i + 1))"
proof -
  from inr have pos: "0 < length vertices" by arith
  note p = prevOf_in_range [OF pos, of i] and n = nextOf_in_range [OF pos, of i]
  note ats = subscript_in_range [OF p] subscript_in_range [OF inr] subscript_in_range [OF n]
  obtain ear where ear: "isEar vertices (prevOf vertices i) i (nextOf vertices i) = Inr ear"
    using isEar_result [OF p inr n] by blast
  show ?thesis
    by (simp only: scan.simps [of vertices triangles i] inr if_True Let_def
          prevOf_def [symmetric] nextOf_def [symmetric] ats ear sum.case
          earTriangle_def earAt_def) auto
qed

lemma scan_result:
  "(scan vertices triangles i = Inr (vertices, triangles, False) \<and>
      (\<forall>k. i \<le> k \<and> k < length vertices \<longrightarrow> \<not> earAt vertices k)) \<or>
   (\<exists>k. i \<le> k \<and> k < length vertices \<and> earAt vertices k \<and>
        (\<forall>k'. i \<le> k' \<and> k' < k \<longrightarrow> \<not> earAt vertices k') \<and>
        scan vertices triangles i =
          Inr (erase vertices k, triangles @ [earTriangle vertices k], True))"
proof (induction vertices triangles i rule: scan.induct)
  case (1 vertices triangles i)
  show ?case
  proof (cases "i < length vertices")
    case False
    then have "\<forall>k. i \<le> k \<and> k < length vertices \<longrightarrow> \<not> earAt vertices k" by auto
    with False show ?thesis by (simp add: scan.simps [of vertices triangles i])
  next
    case inr: True
    from inr have pos: "0 < length vertices" by arith
    note p = prevOf_in_range [OF pos, of i] and n = nextOf_in_range [OF pos, of i]
    note ats = subscript_in_range [OF p [unfolded prevOf_def]] subscript_in_range [OF inr]
      subscript_in_range [OF n [unfolded nextOf_def]]
    show ?thesis
    proof (cases "earAt vertices i")
      case True
      with scan_unfold [OF inr, of triangles] inr show ?thesis by auto
    next
      case noear: False
      have eq: "scan vertices triangles i = scan vertices triangles (i + 1)"
        by (rule trans [OF scan_unfold [OF inr]]) (simp only: noear if_False)
      have ih: "(scan vertices triangles (i + 1) = Inr (vertices, triangles, False) \<and>
          (\<forall>k. i + 1 \<le> k \<and> k < length vertices \<longrightarrow> \<not> earAt vertices k)) \<or>
        (\<exists>k. i + 1 \<le> k \<and> k < length vertices \<and> earAt vertices k \<and>
             (\<forall>k'. i + 1 \<le> k' \<and> k' < k \<longrightarrow> \<not> earAt vertices k') \<and>
             scan vertices triangles (i + 1) =
               Inr (erase vertices k, triangles @ [earTriangle vertices k], True))"
      proof (cases "isConvex (vertices ! prevOf vertices i) (vertices ! i)
                      (vertices ! nextOf vertices i)")
        case True
        with noear obtain ear where
          ear: "isEar vertices (prevOf vertices i) i (nextOf vertices i) = Inr ear" "\<not> ear"
          using isEar_result [OF p inr n] by (auto simp: earAt_def)
        from "1.IH"(1) [OF inr refl refl refl ats True [unfolded prevOf_def nextOf_def]
            ear(1) [unfolded prevOf_def nextOf_def] ear(2)]
        show ?thesis .
      next
        case False
        from "1.IH"(2) [OF inr refl refl refl ats False [unfolded prevOf_def nextOf_def]]
        show ?thesis .
      qed
      have step: "\<And>k. i \<le> k \<Longrightarrow> k = i \<or> i + 1 \<le> k" by arith
      from ih show ?thesis
      proof
        assume a: "scan vertices triangles (i + 1) = Inr (vertices, triangles, False) \<and>
          (\<forall>k. i + 1 \<le> k \<and> k < length vertices \<longrightarrow> \<not> earAt vertices k)"
        then have "\<forall>k. i \<le> k \<and> k < length vertices \<longrightarrow> \<not> earAt vertices k"
          using noear step by blast
        with a eq show ?thesis by simp
      next
        assume "\<exists>k. i + 1 \<le> k \<and> k < length vertices \<and> earAt vertices k \<and>
             (\<forall>k'. i + 1 \<le> k' \<and> k' < k \<longrightarrow> \<not> earAt vertices k') \<and>
             scan vertices triangles (i + 1) =
               Inr (erase vertices k, triangles @ [earTriangle vertices k], True)"
        then obtain k where k: "i + 1 \<le> k" "k < length vertices" "earAt vertices k"
          "\<forall>k'. i + 1 \<le> k' \<and> k' < k \<longrightarrow> \<not> earAt vertices k'"
          "scan vertices triangles (i + 1) =
               Inr (erase vertices k, triangles @ [earTriangle vertices k], True)"
          by blast
        have before: "\<forall>k'. i \<le> k' \<and> k' < k \<longrightarrow> \<not> earAt vertices k'"
          using k(4) noear step by blast
        have "i \<le> k" using k(1) by arith
        moreover have "scan vertices triangles i =
            Inr (erase vertices k, triangles @ [earTriangle vertices k], True)"
          using eq k(5) by simp
        ultimately show ?thesis using k(2,3) before by blast
      qed
    qed
  qed
qed


section \<open>The clipping loop\<close>

lemma clipLoop_done:
  "length vertices \<le> 3 \<Longrightarrow> clipLoop vertices triangles = Some (Inr (vertices, triangles))"
  by (simp add: clipLoop.simps [of vertices triangles])

lemma clipLoop_no_ear:
  "3 < length vertices \<Longrightarrow> scan vertices triangles 0 = Inr (vertices', triangles', False) \<Longrightarrow>
   clipLoop vertices triangles = Some (Inr (vertices', triangles'))"
  by (simp add: clipLoop.simps [of vertices triangles])

lemma clipLoop_round:
  "clipRound s s' \<Longrightarrow> clipLoop (fst s) (snd s) = clipLoop (fst s') (snd s')"
  by (simp add: clipRound_def clipLoop.simps [of "fst s" "snd s"])

lemma clipLoop_rounds:
  "clipRound\<^sup>*\<^sup>* s s' \<Longrightarrow> clipLoop (fst s) (snd s) = clipLoop (fst s') (snd s')"
  by (induction rule: rtranclp_induct) (simp_all add: clipLoop_round)

lemma clipRound_shape:
  assumes "clipRound (vertices, triangles) (vertices', triangles')"
  shows "\<exists>k<length vertices. earAt vertices k \<and> vertices' = erase vertices k \<and>
           triangles' = triangles @ [earTriangle vertices k]"
  using assms scan_result [of vertices triangles 0] by (auto simp: clipRound_def)

lemma scan_cases:
  "(scan vertices triangles 0 = Inr (vertices, triangles, False) \<and>
      (\<forall>k<length vertices. \<not> earAt vertices k)) \<or>
   (\<exists>k<length vertices. earAt vertices k \<and> (\<forall>k'<k. \<not> earAt vertices k') \<and>
      scan vertices triangles 0 =
        Inr (erase vertices k, triangles @ [earTriangle vertices k], True))"
  using scan_result [of vertices triangles 0] by simp

lemma clipRounds_invariant:
  assumes "clipRound\<^sup>*\<^sup>* (vertices, triangles) (vertices', triangles')"
  shows "length triangles' + length vertices' = length triangles + length vertices \<and>
         (3 \<le> length vertices \<longrightarrow> 3 \<le> length vertices') \<and>
         set vertices' \<subseteq> set vertices \<and>
         (\<forall>t\<in>set triangles'. t \<in> set triangles \<or> set t \<subseteq> set vertices)"
  using assms
proof (induction rule: rtranclp_induct2)
  case refl
  show ?case by simp
next
  case (step vs ts vs' ts')
  from step.hyps(2) have long: "3 < length vs" by (simp add: clipRound_def)
  from clipRound_shape [OF step.hyps(2)] obtain k where
    k: "k < length vs" "vs' = erase vs k" "ts' = ts @ [earTriangle vs k]" by blast
  from k(1) have len: "Suc (length vs') = length vs" unfolding k(2) by (rule length_erase)
  have sub: "set vs' \<subseteq> set vs" unfolding k(2) by (rule set_erase)
  have tri: "set (earTriangle vs k) \<subseteq> set vs" using k(1) by (rule set_earTriangle)
  from step.IH have ih1: "length ts + length vs = length triangles + length vertices"
    and ih3: "set vs \<subseteq> set vertices"
    and ih4: "\<forall>t\<in>set ts. t \<in> set triangles \<or> set t \<subseteq> set vertices"
    by simp_all
  have c1: "length ts' + length vs' = length triangles + length vertices"
    using ih1 len by (simp add: k(3))
  have c2: "3 \<le> length vs'" using long len by arith
  have c3: "set vs' \<subseteq> set vertices" using sub ih3 by blast
  have c4: "\<forall>t\<in>set ts'. t \<in> set triangles \<or> set t \<subseteq> set vertices"
    using ih4 tri ih3 by (auto simp: k(3))
  from c1 c2 c3 c4 show ?case by blast
qed

lemma clipLoop_reaches:
  "\<exists>vertices' triangles'.
      clipRound\<^sup>*\<^sup>* (vertices, triangles) (vertices', triangles') \<and>
      clipLoop vertices triangles = Some (Inr (vertices', triangles')) \<and>
      (length vertices' \<le> 3 \<or>
       scan vertices' triangles' 0 = Inr (vertices', triangles', False) \<and>
       (\<forall>k<length vertices'. \<not> earAt vertices' k))"
proof (induction "length vertices" arbitrary: vertices triangles rule: less_induct)
  case less
  show ?case
  proof (cases "3 < length vertices")
    case False
    then have "length vertices \<le> 3" by simp
    then show ?thesis using clipLoop_done [of vertices triangles] by blast
  next
    case long: True
    from scan_cases [of vertices triangles] show ?thesis
    proof
      assume none: "scan vertices triangles 0 = Inr (vertices, triangles, False) \<and>
        (\<forall>k<length vertices. \<not> earAt vertices k)"
      then have "scan vertices triangles 0 = Inr (vertices, triangles, False)" ..
      from clipLoop_no_ear [OF long this] none show ?thesis by blast
    next
      assume "\<exists>k<length vertices. earAt vertices k \<and> (\<forall>k'<k. \<not> earAt vertices k') \<and>
        scan vertices triangles 0 =
          Inr (erase vertices k, triangles @ [earTriangle vertices k], True)"
      then obtain k where k: "k < length vertices"
        and found: "scan vertices triangles 0 =
          Inr (erase vertices k, triangles @ [earTriangle vertices k], True)"
        by blast
      let ?vs = "erase vertices k" and ?ts = "triangles @ [earTriangle vertices k]"
      have round: "clipRound (vertices, triangles) (?vs, ?ts)"
        using long found by (simp add: clipRound_def)
      have "length ?vs < length vertices" using length_erase [OF k] by arith
      from less [OF this, of ?ts] obtain vertices' triangles' where
        r: "clipRound\<^sup>*\<^sup>* (?vs, ?ts) (vertices', triangles')"
          "clipLoop ?vs ?ts = Some (Inr (vertices', triangles'))"
          "length vertices' \<le> 3 \<or>
             scan vertices' triangles' 0 = Inr (vertices', triangles', False) \<and>
             (\<forall>k<length vertices'. \<not> earAt vertices' k)"
        by blast
      have "clipRound\<^sup>*\<^sup>* (vertices, triangles) (vertices', triangles')"
        using round r(1) by (rule converse_rtranclp_into_rtranclp)
      moreover have "clipLoop vertices triangles = Some (Inr (vertices', triangles'))"
        using clipLoop_round [OF round] r(2) by simp
      ultimately show ?thesis using r(3) by blast
    qed
  qed
qed

lemma clipLoop_final:
  assumes "clipRound\<^sup>*\<^sup>* (vertices, triangles) (vertices', triangles')"
    and "length vertices' \<le> 3 \<or> (\<exists>r. scan vertices' triangles' 0 = Inr (fst r, snd r, False))"
  shows "clipLoop vertices triangles = Some (Inr (vertices', triangles'))"
proof -
  have eq: "clipLoop vertices triangles = clipLoop vertices' triangles'"
    using clipLoop_rounds [OF assms(1)] by simp
  show ?thesis
  proof (cases "length vertices' \<le> 3")
    case True
    then show ?thesis unfolding eq by (rule clipLoop_done)
  next
    case False
    then have long: "3 < length vertices'" by simp
    from False assms(2) obtain r where
      r: "scan vertices' triangles' 0 = Inr (fst r, snd r, False)" by blast
    with scan_cases [of vertices' triangles']
    have "scan vertices' triangles' 0 = Inr (vertices', triangles', False)" by auto
    from clipLoop_no_ear [OF long this] show ?thesis unfolding eq .
  qed
qed

section \<open>After the loop\<close>

lemma lastTriangle_in_range:
  "3 \<le> length vertices \<Longrightarrow> lastTriangle vertices = Inr [vertices ! 0, vertices ! 1, vertices ! 2]"
proof -
  assume "3 \<le> length vertices"
  then have "0 < length vertices" "1 < length vertices" "2 < length vertices" by arith+
  then show ?thesis by (simp add: lastTriangle_def subscript_in_range)
qed

lemma lastTriangle_out_of_range:
  "length vertices < 3 \<Longrightarrow>
   lastTriangle vertices = Inl (OutOfRange In_last_triangle (length vertices))"
proof -
  assume "length vertices < 3"
  then have "length vertices = 0 \<or> length vertices = 1 \<or> length vertices = 2" by arith
  then show ?thesis by (auto simp: lastTriangle_def subscript_def)
qed

lemma triangulate_unfold:
  "triangulate vertices =
     (case clipLoop (normalized vertices) [] of
        None \<Rightarrow> None
      | Some (Inl e) \<Rightarrow> Some (Inl e)
      | Some (Inr (vertices', triangles)) \<Rightarrow>
          (case lastTriangle vertices' of
             Inl e \<Rightarrow> Some (Inl e)
           | Inr t \<Rightarrow> Some (Inr (triangles @ [t], vertices'))))"
proof -
  obtain b where b: "isClockwise vertices = Inr b"
    using isClockwise_in_range by blast
  show ?thesis by (cases b) (simp_all add: triangulate_def normalized_def b)
qed

lemma triangulate_result:
  assumes "clipLoop (normalized vertices) [] = Some (Inr (rest, triangles))"
  shows "triangulate vertices =
     (if 3 \<le> length rest
      then Some (Inr (triangles @ [[rest ! 0, rest ! 1, rest ! 2]], rest))
      else Some (Inl (OutOfRange In_last_triangle (length rest))))"
  by (simp add: triangulate_unfold assms lastTriangle_in_range lastTriangle_out_of_range)


text \<open>
  The whole run: the loop ends, in a state reached by ear-finding rounds, either with
  at most three vertices or with no ear at any index; the last triangle is then read
  from the first three places of what is left.
\<close>

lemma triangulate_runs:
  "\<exists>rest clipped.
      clipRound\<^sup>*\<^sup>* (normalized vertices, []) (rest, clipped) \<and>
      (length rest \<le> 3 \<or> (\<forall>k<length rest. \<not> earAt rest k)) \<and>
      clipLoop (normalized vertices) [] = Some (Inr (rest, clipped)) \<and>
      length clipped + length rest = length vertices \<and>
      (3 \<le> length vertices \<longrightarrow> 3 \<le> length rest) \<and>
      (length vertices \<le> 3 \<longrightarrow> length rest = length vertices) \<and>
      set rest \<subseteq> set vertices \<and>
      (\<forall>t\<in>set clipped. set t \<subseteq> set vertices) \<and>
      triangulate vertices =
        (if 3 \<le> length vertices
         then Some (Inr (clipped @ [[rest ! 0, rest ! 1, rest ! 2]], rest))
         else Some (Inl (OutOfRange In_last_triangle (length vertices))))"
proof -
  obtain rest clipped where
    reach: "clipRound\<^sup>*\<^sup>* (normalized vertices, []) (rest, clipped)"
    and loop: "clipLoop (normalized vertices) [] = Some (Inr (rest, clipped))"
    and final: "length rest \<le> 3 \<or> (\<forall>k<length rest. \<not> earAt rest k)"
    using clipLoop_reaches [of "normalized vertices" "[]"] by blast
  from clipRounds_invariant [OF reach]
  have count: "length clipped + length rest = length vertices"
    and keep: "3 \<le> length vertices \<longrightarrow> 3 \<le> length rest"
    and sub: "set rest \<subseteq> set vertices"
    and tri: "\<forall>t\<in>set clipped. set t \<subseteq> set vertices"
    by (simp_all add: length_normalized set_normalized)
  have same: "length rest = length vertices" if "length vertices \<le> 3"
  proof -
    from that have "length (normalized vertices) \<le> 3" by (simp add: length_normalized)
    from clipLoop_done [OF this, of "[]"] loop have "rest = normalized vertices" by simp
    then show ?thesis by (simp add: length_normalized)
  qed
  have result: "triangulate vertices =
        (if 3 \<le> length vertices
         then Some (Inr (clipped @ [[rest ! 0, rest ! 1, rest ! 2]], rest))
         else Some (Inl (OutOfRange In_last_triangle (length vertices))))"
  proof (cases "3 \<le> length vertices")
    case True
    with keep triangulate_result [OF loop] show ?thesis by simp
  next
    case False
    then have "length vertices \<le> 3" by simp
    from same [OF this] False triangulate_result [OF loop] show ?thesis by simp
  qed
  from reach final loop count keep same sub tri result show ?thesis by blast
qed


section \<open>Concrete runs\<close>

text \<open>
  Evaluated with the code equations. The square is reversed and loses one ear; the
  collinear points are reversed and have no ear at any index; the polygon of
  \<^verbatim>\<open>main\<close> is clockwise as given and is clipped twice.
\<close>

lemma square_normalized: "normalized square = [pt 0 2, pt 2 2, pt 2 0, pt 0 0]"
  by code_simp

lemma square_scan:
  "scan [pt 0 2, pt 2 2, pt 2 0, pt 0 0] [] 0 =
     Inr ([pt 2 2, pt 2 0, pt 0 0], [[pt 0 0, pt 0 2, pt 2 2]], True)"
  by code_simp

lemma collinear_normalized:
  "normalized collinear = [pt 4 0, pt 3 0, pt 2 0, pt 1 0, pt 0 0]"
  by code_simp

lemma collinear_no_ear:
  "\<forall>i\<in>set [0..<5]. \<not> earAt [pt 4 0, pt 3 0, pt 2 0, pt 1 0, pt 0 0] i"
  by code_simp

lemma polygon_result:
  "triangulate polygon =
     Some (Inr ([[pt (-2) 1, pt 1 1, pt 0 0],
                 [pt (-1) (-1), pt (-2) 1, pt 0 0],
                 [pt (-1) (-1), pt 0 0, pt 3 (-1)]],
                [pt (-1) (-1), pt 0 0, pt 3 (-1)]))"
  by code_simp

text \<open>
  The float sums of \<open>skew\<close>. Forward, \<open>24597 + 67166200 = 67190797\<close> is rounded to
  \<open>67190800\<close>, and the sum ends at \<open>2\<close>; backward nothing is rounded and the sum
  ends at \<open>1\<close>. The exact sums are \<open>-1\<close> and \<open>1\<close>.
\<close>

lemma skew_forward: "isClockwise_loop (map toBinary32 skew) 0 0 = Inr (Finite 2)"
  by code_simp

lemma skew_backward: "isClockwise_loop (rev (map toBinary32 skew)) 0 0 = Inr (Finite 1)"
  by code_simp

lemma skew_exact: "isClockwise_loop skew 0 0 = Inr (- 1)"
  by code_simp

lemma skew_binary32: "list_all isBinary32 skew"
  by code_simp

lemma corner_exact: "isClockwise_loop corner 0 0 = Inr (- 1)"
  by code_simp

lemma corner_forward: "isClockwise_loop (map toBinary32 corner) 0 0 = Inr (Finite (- 1))"
  by code_simp

lemma corner_backward: "isClockwise_loop (rev (map toBinary32 corner)) 0 0 = Inr (Finite 1)"
  by code_simp

lemma square_sum: "isClockwise_loop square 0 0 = Inr (- 8)"
  by code_simp

section \<open>The claims\<close>

text \<open>
  C1. A polygon of \<open>n \<ge> 3\<close> vertices on which an ear is found in every round until only
  three vertices remain (the loop goes from the normalized input through ear-finding
  rounds to a state with at most three vertices, so the no-ear exit is never taken)
  yields exactly \<open>n - 2\<close> triangles: the clipped ones and the final one. Simplicity of
  the polygon is not needed for the count.
\<close>

theorem fully_clipped_count:
  assumes "3 \<le> length vertices"
    and "clipRound\<^sup>*\<^sup>* (normalized vertices, []) (rest, clipped)"
    and "length rest \<le> 3"
  shows "triangulate vertices = Some (Inr (clipped @ [[rest ! 0, rest ! 1, rest ! 2]], rest)) \<and>
         length (clipped @ [[rest ! 0, rest ! 1, rest ! 2]]) = length vertices - 2"
proof -
  from assms(1) have "3 \<le> length (normalized vertices)" by (simp add: length_normalized)
  with clipRounds_invariant [OF assms(2)]
  have inv: "length clipped + length rest = length vertices" "3 \<le> length rest"
    by (simp_all add: length_normalized)
  from inv(2) assms(3) have three: "length rest = 3" by arith
  have "clipLoop (normalized vertices) [] = Some (Inr (rest, clipped))"
    using assms(2) by (rule clipLoop_final) (simp add: assms(3))
  from triangulate_result [OF this]
  have "triangulate vertices = Some (Inr (clipped @ [[rest ! 0, rest ! 1, rest ! 2]], rest))"
    by (simp add: three)
  moreover have "length (clipped @ [[rest ! 0, rest ! 1, rest ! 2]]) = length vertices - 2"
    using inv(1) three by simp
  ultimately show ?thesis ..
qed

text \<open>The square: one round, then three vertices are left, and \<open>4 - 2 = 2\<close> triangles.\<close>

theorem fully_clipped_count_witness:
  "3 \<le> length square \<and>
   clipRound\<^sup>*\<^sup>* (normalized square, [])
     ([pt 2 2, pt 2 0, pt 0 0], [[pt 0 0, pt 0 2, pt 2 2]]) \<and>
   length [pt 2 2, pt 2 0, pt 0 0] \<le> 3 \<and>
   triangulate square =
     Some (Inr ([[pt 0 0, pt 0 2, pt 2 2], [pt 2 2, pt 2 0, pt 0 0]],
                [pt 2 2, pt 2 0, pt 0 0])) \<and>
   length [[pt 0 0, pt 0 2, pt 2 2], [pt 2 2, pt 2 0, pt 0 0]] = length square - 2"
proof -
  have "clipRound (normalized square, [])
      ([pt 2 2, pt 2 0, pt 0 0], [[pt 0 0, pt 0 2, pt 2 2]])"
    by (simp add: clipRound_def square_normalized square_scan)
  then have rounds: "clipRound\<^sup>*\<^sup>* (normalized square, [])
      ([pt 2 2, pt 2 0, pt 0 0], [[pt 0 0, pt 0 2, pt 2 2]])"
    by (rule r_into_rtranclp)
  have "3 \<le> length square" and "length [pt 2 2, pt 2 0, pt 0 0] \<le> 3"
    by (simp_all add: square_def)
  from fully_clipped_count [OF this(1) rounds this(2)] rounds show ?thesis
    by (simp add: square_def)
qed

text \<open>
  C2. \<^verbatim>\<open>isPointInsideTriangle\<close> returns false exactly when one of \<open>alpha\<close>, \<open>beta\<close>,
  \<open>gamma\<close> is strictly positive; so a point with one of them zero and none positive (a
  point on an edge or at a vertex) is reported inside.
\<close>

theorem isPointInsideTriangle_iff:
  "(let alpha = crossProduct (operator_minus current prev) (operator_minus point prev);
        beta = crossProduct (operator_minus next current) (operator_minus point current);
        gamma = crossProduct (operator_minus prev next) (operator_minus point next)
    in ((isPointInsideTriangle point prev current next = False) =
          (alpha > 0 \<or> beta > 0 \<or> gamma > 0)) \<and>
       ((alpha = 0 \<or> beta = 0 \<or> gamma = 0) \<and> \<not> (alpha > 0 \<or> beta > 0 \<or> gamma > 0) \<longrightarrow>
          isPointInsideTriangle point prev current next = True))"
  by (simp add: isPointInsideTriangle_def Let_def)

text \<open>
  For the triangle \<open>(0,0), (0,2), (2,0)\<close>: the point \<open>(3,0)\<close> is outside; the point
  \<open>(1,0)\<close> lies on the edge from \<open>next\<close> to \<open>prev\<close>, where \<open>gamma = 0\<close>, and is inside.
\<close>

theorem isPointInsideTriangle_iff_witness:
  "isPointInsideTriangle (pt 3 0) (pt 0 0) (pt 0 2) (pt 2 0) = False \<and>
   crossProduct (operator_minus (pt 0 0) (pt 2 0)) (operator_minus (pt 1 0) (pt 2 0)) = 0 \<and>
   isPointInsideTriangle (pt 1 0) (pt 0 0) (pt 0 2) (pt 2 0) = True"
  using isPointInsideTriangle_iff [of "pt 0 2" "pt 0 0" "pt 3 0" "pt 2 0"]
    isPointInsideTriangle_iff [of "pt 0 2" "pt 0 0" "pt 1 0" "pt 2 0"]
  by (simp add: crossProduct_def operator_minus_def Let_def pt_def)



text \<open>
  C4. For indices within bounds, \<^verbatim>\<open>isEar\<close> returns false exactly when some index \<open>j\<close>
  of the sequence, different from the three given indices, holds a point contained in
  the triangle by the boundary-inclusive test, and true otherwise. The exclusion is by
  index alone.
\<close>

theorem isEar_iff:
  "prevIndex < length vertices \<and> currentIndex < length vertices \<and> nextIndex < length vertices \<Longrightarrow>
   isEar vertices prevIndex currentIndex nextIndex =
     Inr (\<not> (\<exists>j<length vertices. j \<noteq> prevIndex \<and> j \<noteq> currentIndex \<and> j \<noteq> nextIndex \<and>
              isPointInsideTriangle (vertices ! j) (vertices ! prevIndex)
                (vertices ! currentIndex) (vertices ! nextIndex)))"
  by (simp add: isEar_result)

text \<open>
  With a second copy of \<open>(0,0)\<close> at index 3, the triangle at indices 0, 1, 2 is not an
  ear: the copy is tested and lies on the boundary. Without the copy it is an ear.
\<close>

theorem isEar_iff_witness:
  "isEar [pt 0 0, pt 0 2, pt 2 0, pt 0 0, pt 5 5] 0 1 2 = Inr False \<and>
   isEar [pt 0 0, pt 0 2, pt 2 0, pt 5 5] 0 1 2 = Inr True"
proof -
  let ?dup = "[pt 0 0, pt 0 2, pt 2 0, pt 0 0, pt 5 5]"
  let ?ear = "[pt 0 0, pt 0 2, pt 2 0, pt 5 5]"
  have inside: "\<exists>j<length ?dup. j \<noteq> 0 \<and> j \<noteq> 1 \<and> j \<noteq> 2 \<and>
      isPointInsideTriangle (?dup ! j) (?dup ! 0) (?dup ! 1) (?dup ! 2)"
    by (rule exI [of _ 3])
       (simp add: isPointInsideTriangle_def crossProduct_def operator_minus_def pt_def)
  have only: "\<And>j. j < length ?ear \<Longrightarrow> j \<noteq> 0 \<Longrightarrow> j \<noteq> 1 \<Longrightarrow> j \<noteq> 2 \<Longrightarrow> j = 3"
    by simp
  have "\<not> isPointInsideTriangle (?ear ! 3) (?ear ! 0) (?ear ! 1) (?ear ! 2)"
    by (simp add: isPointInsideTriangle_def crossProduct_def operator_minus_def pt_def)
  with only have outside: "\<not> (\<exists>j<length ?ear. j \<noteq> 0 \<and> j \<noteq> 1 \<and> j \<noteq> 2 \<and>
      isPointInsideTriangle (?ear ! j) (?ear ! 0) (?ear ! 1) (?ear ! 2))"
    by (metis (no_types, lifting))
  have "isEar ?dup 0 1 2 = Inr False"
    using isEar_iff [where vertices = ?dup and prevIndex = 0 and currentIndex = 1
        and nextIndex = 2] inside
    by (simp only: length_Cons list.size simp_thms) simp
  moreover have "isEar ?ear 0 1 2 = Inr True"
    using isEar_iff [where vertices = ?ear and prevIndex = 0 and currentIndex = 1
        and nextIndex = 2] outside
    by (simp only: length_Cons list.size simp_thms) simp
  ultimately show ?thesis by blast
qed

text \<open>
  C5, as amended. When the sums are exact, \<^verbatim>\<open>isClockwise\<close> gives opposite results on a
  sequence and on its reverse, except when the sum is zero, where both are false. This
  is so over every exact coordinate arithmetic (an ordered ring), and it is so for the
  float operations whenever the float sum of the sequence and the float sum of its
  reverse both come out equal to the exact sums.
\<close>

theorem isClockwise_reverse_exact:
  fixes vertices :: "('a::linordered_idom) Vec2f list" and p :: "rat Vec2f list"
  shows
    "(\<exists>s b. isClockwise_loop vertices 0 0 = Inr s \<and>
        isClockwise vertices = Inr b \<and>
        (s \<noteq> 0 \<longrightarrow> isClockwise (rev vertices) = Inr (\<not> b)) \<and>
        (s = 0 \<longrightarrow> \<not> b \<and> isClockwise (rev vertices) = Inr False)) \<and>
     (isClockwise_loop p 0 0 = Inr s \<and>
      isClockwise_loop (rev p) 0 0 = Inr s' \<and>
      isClockwise_loop (map toBinary32 p) 0 0 = Inr (Finite s) \<and>
      isClockwise_loop (rev (map toBinary32 p)) 0 0 = Inr (Finite s') \<longrightarrow>
        (\<exists>b. isClockwise (map toBinary32 p) = Inr b \<and>
           (s \<noteq> 0 \<longrightarrow> isClockwise (rev (map toBinary32 p)) = Inr (\<not> b)) \<and>
           (s = 0 \<longrightarrow> \<not> b \<and> isClockwise (rev (map toBinary32 p)) = Inr False)))"
proof -
  obtain t where t: "isClockwise_loop vertices 0 0 = Inr t"
    using isClockwise_loop_in_range by blast
  note t' = isClockwise_loop_rev [OF t]
  have fwd: "isClockwise vertices = Inr (0 < t)"
    by (simp add: isClockwise_def t)
  have bwd: "isClockwise (rev vertices) = Inr (t < 0)"
    by (simp add: isClockwise_def t')
  have "t \<noteq> 0 \<longrightarrow> isClockwise (rev vertices) = Inr (\<not> 0 < t)"
    using bwd by auto
  moreover have "t = 0 \<longrightarrow> \<not> 0 < t \<and> isClockwise (rev vertices) = Inr False"
    using bwd by simp
  ultimately have exact: "\<exists>s b. isClockwise_loop vertices 0 0 = Inr s \<and>
        isClockwise vertices = Inr b \<and>
        (s \<noteq> 0 \<longrightarrow> isClockwise (rev vertices) = Inr (\<not> b)) \<and>
        (s = 0 \<longrightarrow> \<not> b \<and> isClockwise (rev vertices) = Inr False)"
    using t fwd by blast
  have float: "\<exists>b. isClockwise (map toBinary32 p) = Inr b \<and>
           (s \<noteq> 0 \<longrightarrow> isClockwise (rev (map toBinary32 p)) = Inr (\<not> b)) \<and>
           (s = 0 \<longrightarrow> \<not> b \<and> isClockwise (rev (map toBinary32 p)) = Inr False)"
    if h: "isClockwise_loop p 0 0 = Inr s \<and>
      isClockwise_loop (rev p) 0 0 = Inr s' \<and>
      isClockwise_loop (map toBinary32 p) 0 0 = Inr (Finite s) \<and>
      isClockwise_loop (rev (map toBinary32 p)) 0 0 = Inr (Finite s')"
  proof -
    from h isClockwise_loop_rev [of p s] have neg: "s' = - s" by simp
    from h have f: "isClockwise (map toBinary32 p) = Inr (0 < s)"
      by (simp add: isClockwise_def zero_binary32_def)
    from h neg have g: "isClockwise (rev (map toBinary32 p)) = Inr (s < 0)"
      by (simp add: isClockwise_def zero_binary32_def)
    have "s \<noteq> 0 \<longrightarrow> isClockwise (rev (map toBinary32 p)) = Inr (\<not> 0 < s)"
      using g by auto
    moreover have "s = 0 \<longrightarrow> \<not> 0 < s \<and> isClockwise (rev (map toBinary32 p)) = Inr False"
      using g by simp
    ultimately show ?thesis using f by blast
  qed
  from exact float show ?thesis by blast
qed

text \<open>
  The square over the integers, with sum \<open>-8\<close>: false, and true on the reverse. The
  right triangle over binary32, where both float sums are the exact ones, \<open>-1\<close> and
  \<open>1\<close>: false, and true on the reverse.
\<close>

theorem isClockwise_reverse_exact_witness:
  "isClockwise_loop square 0 0 = Inr (- 8) \<and>
   isClockwise square = Inr False \<and>
   isClockwise (rev square) = Inr True \<and>
   isClockwise_loop corner 0 0 = Inr (- 1) \<and>
   isClockwise_loop (rev corner) 0 0 = Inr 1 \<and>
   isClockwise_loop (map toBinary32 corner) 0 0 = Inr (Finite (- 1)) \<and>
   isClockwise_loop (rev (map toBinary32 corner)) 0 0 = Inr (Finite 1) \<and>
   isClockwise (map toBinary32 corner) = Inr False \<and>
   isClockwise (rev (map toBinary32 corner)) = Inr True"
proof -
  note inst = isClockwise_reverse_exact [of square corner "- 1" 1]
  have reversed: "isClockwise_loop (rev corner) 0 0 = Inr 1"
    using isClockwise_loop_rev [OF corner_exact] by simp
  from inst obtain s b where
    e: "isClockwise_loop square 0 0 = Inr s" "isClockwise square = Inr b"
      "s \<noteq> 0 \<longrightarrow> isClockwise (rev square) = Inr (\<not> b)"
    by blast
  from e(1) square_sum have s: "s = - 8" by simp
  have "isClockwise square = Inr False"
    by (simp add: isClockwise_def square_sum)
  with e(2) have b: "b = False" by simp
  from e(3) s b have sq: "isClockwise (rev square) = Inr True" by simp
  from inst corner_exact reversed corner_forward corner_backward obtain c where
    f: "isClockwise (map toBinary32 corner) = Inr c"
      "isClockwise (rev (map toBinary32 corner)) = Inr (\<not> c)"
    by auto
  have "isClockwise (map toBinary32 corner) = Inr ((0::binary32) < Finite (- 1))"
    by (simp only: isClockwise_def corner_forward sum.case)
  then have "isClockwise (map toBinary32 corner) = Inr False"
    by (simp add: zero_binary32_def)
  with f have co: "isClockwise (map toBinary32 corner) = Inr False"
    "isClockwise (rev (map toBinary32 corner)) = Inr True"
    by simp_all
  from square_sum \<open>isClockwise square = Inr False\<close> sq corner_exact reversed
    corner_forward corner_backward co
  show ?thesis by blast
qed

text \<open>
  C5, as stated, holds for every vertex sequence. On the four points of \<open>skew\<close>, all of
  them binary32 values, the float sum is \<open>2\<close> and the float sum of the reverse is \<open>1\<close>:
  neither is zero, and \<^verbatim>\<open>isClockwise\<close> returns true on both.
\<close>

theorem isClockwise_reverse_counterexample:
  "list_all isBinary32 skew \<and>
   isClockwise_loop (map toBinary32 skew) 0 0 = Inr (Finite 2) \<and>
   isClockwise_loop (rev (map toBinary32 skew)) 0 0 = Inr (Finite 1) \<and>
   isClockwise (map toBinary32 skew) = Inr True \<and>
   isClockwise (rev (map toBinary32 skew)) = Inr True"
proof -
  have "isClockwise (map toBinary32 skew) = Inr ((0::binary32) < Finite 2)"
    by (simp only: isClockwise_def skew_forward sum.case)
  then have forward: "isClockwise (map toBinary32 skew) = Inr True"
    by (simp add: zero_binary32_def)
  have "isClockwise (rev (map toBinary32 skew)) = Inr ((0::binary32) < Finite 1)"
    by (simp only: isClockwise_def skew_backward sum.case)
  then have backward: "isClockwise (rev (map toBinary32 skew)) = Inr True"
    by (simp add: zero_binary32_def)
  from skew_binary32 skew_forward skew_backward forward backward show ?thesis
    by blast
qed

text \<open>
  C6. When the loop, started on the normalized input, has reached a state with more
  than three vertices in which no index is both convex and an ear, the scan comes back
  with \<^verbatim>\<open>earFound\<close> unset and the state unchanged, the loop stops there without an
  error, and \<^verbatim>\<open>triangulate\<close> returns the triangles clipped so far followed by one
  triangle made of the first three leftover vertices; the other leftover vertices
  are in no triangle of this last step.
\<close>

theorem triangulate_no_ear_exit:
  assumes "clipRound\<^sup>*\<^sup>* (normalized vertices, []) (rest, clipped)"
    and "3 < length rest"
    and "\<forall>i<length rest. \<not> earAt rest i"
  shows "scan rest clipped 0 = Inr (rest, clipped, False) \<and>
         clipLoop rest clipped = Some (Inr (rest, clipped)) \<and>
         triangulate vertices = Some (Inr (clipped @ [[rest ! 0, rest ! 1, rest ! 2]], rest))"
proof -
  from scan_cases [of rest clipped] assms(3)
  have none: "scan rest clipped 0 = Inr (rest, clipped, False)" by blast
  have stop: "clipLoop rest clipped = Some (Inr (rest, clipped))"
    using assms(2) none by (rule clipLoop_no_ear)
  have "clipLoop (normalized vertices) [] = Some (Inr (rest, clipped))"
    using clipLoop_rounds [OF assms(1)] stop by simp
  from triangulate_result [OF this] assms(2)
  have "triangulate vertices = Some (Inr (clipped @ [[rest ! 0, rest ! 1, rest ! 2]], rest))"
    by simp
  with none stop show ?thesis by blast
qed

text \<open>
  Five collinear points: nothing is clipped, all five vertices are left, and the
  result is the single triangle of the first three of them.
\<close>

theorem triangulate_no_ear_exit_witness:
  "clipRound\<^sup>*\<^sup>* (normalized collinear, []) ([pt 4 0, pt 3 0, pt 2 0, pt 1 0, pt 0 0], []) \<and>
   3 < length [pt 4 0, pt 3 0, pt 2 0, pt 1 0, pt 0 0] \<and>
   \<not> (\<exists>i<length [pt 4 0, pt 3 0, pt 2 0, pt 1 0, pt 0 0].
         earAt [pt 4 0, pt 3 0, pt 2 0, pt 1 0, pt 0 0] i) \<and>
   triangulate collinear =
     Some (Inr ([[pt 4 0, pt 3 0, pt 2 0]], [pt 4 0, pt 3 0, pt 2 0, pt 1 0, pt 0 0]))"
proof -
  let ?rest = "[pt 4 0, pt 3 0, pt 2 0, pt 1 0, pt 0 0]"
  have rounds: "clipRound\<^sup>*\<^sup>* (normalized collinear, []) (?rest, [])"
    by (simp only: collinear_normalized rtranclp.rtrancl_refl)
  have long: "3 < length ?rest" by simp
  have none: "\<forall>i<length ?rest. \<not> earAt ?rest i"
    using collinear_no_ear by simp
  from triangulate_no_ear_exit [OF rounds long none] rounds none show ?thesis by simp
qed

text \<open>
  C7, as amended. With fewer than three vertices \<^verbatim>\<open>triangulate\<close> does read out of
  range, but in \<^verbatim>\<open>{vertices[0], vertices[1], vertices[2]}\<close> after the loop, at the index
  equal to the number of vertices; the modulo-based neighbour lookups of
  \<^verbatim>\<open>isClockwise\<close> and of the scan never leave the range. With at least three vertices
  no access is out of range.
\<close>

theorem triangulate_out_of_range:
  "(length vertices < 3 \<longrightarrow>
      triangulate vertices = Some (Inl (OutOfRange In_last_triangle (length vertices)))) \<and>
   (3 \<le> length vertices \<longrightarrow> (\<exists>r. triangulate vertices = Some (Inr r)))"
  using triangulate_runs [of vertices] by auto

text \<open>Two points, and the square.\<close>

theorem triangulate_out_of_range_witness:
  "length twoPoints < 3 \<and>
   triangulate twoPoints = Some (Inl (OutOfRange In_last_triangle 2)) \<and>
   3 \<le> length square \<and>
   (\<exists>r. triangulate square = Some (Inr r))"
  using triangulate_out_of_range [of twoPoints] triangulate_out_of_range [of square]
  by (simp add: twoPoints_def square_def)

text \<open>
  C7, as stated, puts the out-of-range access in the modulo-based neighbour lookups.
  On two points \<^verbatim>\<open>isClockwise\<close> does its modulo lookups and returns, the loop is not
  entered, and the access that fails is \<^verbatim>\<open>vertices[2]\<close> of the last triangle.
\<close>

theorem triangulate_short_counterexample:
  "isClockwise twoPoints = Inr False \<and>
   triangulate twoPoints = Some (Inl (OutOfRange In_last_triangle 2))"
  by code_simp

text \<open>
  C8. \<^verbatim>\<open>triangulate\<close> comes to an end on every input (with a result when there are
  at least three vertices, at the out-of-range access of the last triangle
  otherwise), and so does the loop from every state. In a round with more than three
  vertices either the scan erases exactly one vertex and the loop goes on from the
  shorter sequence, or the scan leaves the state as it is with \<^verbatim>\<open>earFound\<close> unset and
  the loop returns at once.
\<close>

theorem triangulate_terminates:
  "(\<exists>r. triangulate vertices = Some r) \<and>
   (3 \<le> length vertices \<longrightarrow> (\<exists>r. triangulate vertices = Some (Inr r))) \<and>
   (\<exists>r. clipLoop vs ts = Some r) \<and>
   (3 < length vs \<longrightarrow>
      (\<exists>k<length vs. scan vs ts 0 = Inr (erase vs k, ts @ [earTriangle vs k], True) \<and>
         Suc (length (erase vs k)) = length vs \<and>
         clipLoop vs ts = clipLoop (erase vs k) (ts @ [earTriangle vs k])) \<or>
      (scan vs ts 0 = Inr (vs, ts, False) \<and> clipLoop vs ts = Some (Inr (vs, ts))))"
proof -
  have t: "\<exists>r. triangulate vertices = Some r"
    using triangulate_runs [of vertices] by (cases "3 \<le> length vertices") auto
  have t3: "3 \<le> length vertices \<longrightarrow> (\<exists>r. triangulate vertices = Some (Inr r))"
    using triangulate_runs [of vertices] by auto
  have l: "\<exists>r. clipLoop vs ts = Some r"
    using clipLoop_reaches [of vs ts] by blast
  have r: "(\<exists>k<length vs. scan vs ts 0 = Inr (erase vs k, ts @ [earTriangle vs k], True) \<and>
         Suc (length (erase vs k)) = length vs \<and>
         clipLoop vs ts = clipLoop (erase vs k) (ts @ [earTriangle vs k])) \<or>
      (scan vs ts 0 = Inr (vs, ts, False) \<and> clipLoop vs ts = Some (Inr (vs, ts)))"
    if long: "3 < length vs"
    using scan_cases [of vs ts]
  proof
    assume "scan vs ts 0 = Inr (vs, ts, False) \<and> (\<forall>k<length vs. \<not> earAt vs k)"
    then have none: "scan vs ts 0 = Inr (vs, ts, False)" ..
    from clipLoop_no_ear [OF long none] none show ?thesis by blast
  next
    assume "\<exists>k<length vs. earAt vs k \<and> (\<forall>k'<k. \<not> earAt vs k') \<and>
      scan vs ts 0 = Inr (erase vs k, ts @ [earTriangle vs k], True)"
    then obtain k where k: "k < length vs"
      and found: "scan vs ts 0 = Inr (erase vs k, ts @ [earTriangle vs k], True)"
      by blast
    have "clipRound (vs, ts) (erase vs k, ts @ [earTriangle vs k])"
      using long found by (simp add: clipRound_def)
    from clipLoop_round [OF this]
    have "clipLoop vs ts = clipLoop (erase vs k) (ts @ [earTriangle vs k])" by simp
    with k found length_erase [OF k] show ?thesis by blast
  qed
  from t t3 l r show ?thesis by blast
qed

text \<open>The reversed square: its round erases one vertex, and the loop ends after it.\<close>

theorem triangulate_terminates_witness:
  "3 \<le> length square \<and>
   (\<exists>r. triangulate square = Some (Inr r)) \<and>
   3 < length [pt 0 2, pt 2 2, pt 2 0, pt 0 0] \<and>
   (\<exists>r. clipLoop [pt 0 2, pt 2 2, pt 2 0, pt 0 0] [] = Some r) \<and>
   clipLoop [pt 0 2, pt 2 2, pt 2 0, pt 0 0] [] =
     Some (Inr ([pt 2 2, pt 2 0, pt 0 0], [[pt 0 0, pt 0 2, pt 2 2]]))"
proof -
  let ?vs = "[pt 0 2, pt 2 2, pt 2 0, pt 0 0]"
  let ?vs' = "[pt 2 2, pt 2 0, pt 0 0]" and ?ts' = "[[pt 0 0, pt 0 2, pt 2 2]]"
  have none: "scan ?vs [] 0 \<noteq> Inr (?vs, [], False)"
    by (simp add: square_scan)
  have after: "clipLoop (erase ?vs k) ([] @ [earTriangle ?vs k]) = Some (Inr (?vs', ?ts'))"
    if "scan ?vs [] 0 = Inr (erase ?vs k, [] @ [earTriangle ?vs k], True)" for k
  proof -
    from that have "erase ?vs k = ?vs'" and "[] @ [earTriangle ?vs k] = ?ts'"
      by (simp_all add: square_scan)
    then show ?thesis by (simp only: clipLoop_done length_Cons list.size)
  qed
  have three: "3 \<le> length square" by (simp add: square_def)
  have long: "3 < length ?vs" by simp
  note run = triangulate_terminates [of square ?vs "[]"]
  from run three have result: "\<exists>r. triangulate square = Some (Inr r)" by blast
  from run have loop: "\<exists>r. clipLoop ?vs [] = Some r" by blast
  from run long none
  have "\<exists>k<length ?vs. scan ?vs [] 0 = Inr (erase ?vs k, [] @ [earTriangle ?vs k], True) \<and>
      clipLoop ?vs [] = clipLoop (erase ?vs k) ([] @ [earTriangle ?vs k])"
    by blast
  with after have "clipLoop ?vs [] = Some (Inr (?vs', ?ts'))"
    by (metis (no_types, lifting))
  with three long result loop show ?thesis by blast
qed

text \<open>
  C9. Every point of every returned triangle is one of the vertices of the input
  (and with at least three vertices there is a returned sequence).
\<close>

theorem triangulate_vertex_subset:
  "(3 \<le> length vertices \<longrightarrow> (\<exists>triangles rest. triangulate vertices = Some (Inr (triangles, rest)))) \<and>
   (triangulate vertices = Some (Inr (triangles, rest)) \<longrightarrow>
      (\<forall>t\<in>set triangles. \<forall>p\<in>set t. p \<in> set vertices))"
proof -
  from triangulate_runs [of vertices] obtain rest' clipped where
    r: "3 \<le> length vertices \<longrightarrow> 3 \<le> length rest'"
      "set rest' \<subseteq> set vertices"
      "\<forall>t\<in>set clipped. set t \<subseteq> set vertices"
      "triangulate vertices =
        (if 3 \<le> length vertices
         then Some (Inr (clipped @ [[rest' ! 0, rest' ! 1, rest' ! 2]], rest'))
         else Some (Inl (OutOfRange In_last_triangle (length vertices))))"
    by blast
  have returns: "\<exists>triangles rest. triangulate vertices = Some (Inr (triangles, rest))"
    if "3 \<le> length vertices"
    using that r(4) by simp
  have subset: "\<forall>t\<in>set triangles. \<forall>p\<in>set t. p \<in> set vertices"
    if res: "triangulate vertices = Some (Inr (triangles, rest))"
  proof -
    from res r(4) have long: "3 \<le> length vertices"
      by (cases "3 \<le> length vertices") simp_all
    with res r(4) have eq: "triangles = clipped @ [[rest' ! 0, rest' ! 1, rest' ! 2]]"
      by auto
    from long r(1) have "0 < length rest'" "1 < length rest'" "2 < length rest'" by arith+
    then have "rest' ! 0 \<in> set rest'" "rest' ! 1 \<in> set rest'" "rest' ! 2 \<in> set rest'"
      by (simp_all only: nth_mem)
    with r(2) have "set [rest' ! 0, rest' ! 1, rest' ! 2] \<subseteq> set vertices" by auto
    with r(3) show ?thesis unfolding eq by auto
  qed
  from returns subset show ?thesis by blast
qed

text \<open>The polygon of \<^verbatim>\<open>main\<close>: its three triangles use its own five points only.\<close>

theorem triangulate_vertex_subset_witness:
  "3 \<le> length polygon \<and>
   triangulate polygon =
     Some (Inr ([[pt (-2) 1, pt 1 1, pt 0 0],
                 [pt (-1) (-1), pt (-2) 1, pt 0 0],
                 [pt (-1) (-1), pt 0 0, pt 3 (-1)]],
                [pt (-1) (-1), pt 0 0, pt 3 (-1)])) \<and>
   set (concat [[pt (-2) 1, pt 1 1, pt 0 0],
                [pt (-1) (-1), pt (-2) 1, pt 0 0],
                [pt (-1) (-1), pt 0 0, pt 3 (-1)]]) \<subseteq> set polygon"
proof -
  have long: "3 \<le> length polygon" by (simp add: polygon_def)
  from triangulate_vertex_subset
    [of polygon "[[pt (-2) 1, pt 1 1, pt 0 0], [pt (-1) (-1), pt (-2) 1, pt 0 0],
       [pt (-1) (-1), pt 0 0, pt 3 (-1)]]" "[pt (-1) (-1), pt 0 0, pt 3 (-1)]"]
    polygon_result
  have "\<forall>t\<in>set [[pt (-2) 1, pt 1 1, pt 0 0], [pt (-1) (-1), pt (-2) 1, pt 0 0],
       [pt (-1) (-1), pt 0 0, pt 3 (-1)]]. \<forall>p\<in>set t. p \<in> set polygon"
    by blast
  then have "set (concat [[pt (-2) 1, pt 1 1, pt 0 0], [pt (-1) (-1), pt (-2) 1, pt 0 0],
       [pt (-1) (-1), pt 0 0, pt 3 (-1)]]) \<subseteq> set polygon"
    by auto
  with long polygon_result show ?thesis by blast
qed

text \<open>
  C10. With at least three vertices, by whichever exit the loop is left, the result
  is the triangles clipped in the loop followed by exactly one more; their number is
  the number of input vertices minus the number of vertices left in the sequence, plus
  one, and the result is not empty.
\<close>

theorem triangle_count_invariant:
  "3 \<le> length vertices \<Longrightarrow>
   \<exists>clipped rest.
     clipLoop (normalized vertices) [] = Some (Inr (rest, clipped)) \<and>
     triangulate vertices = Some (Inr (clipped @ [[rest ! 0, rest ! 1, rest ! 2]], rest)) \<and>
     length rest \<le> length vertices \<and>
     length (clipped @ [[rest ! 0, rest ! 1, rest ! 2]]) = length vertices - length rest + 1 \<and>
     clipped @ [[rest ! 0, rest ! 1, rest ! 2]] \<noteq> []"
proof -
  assume long: "3 \<le> length vertices"
  from triangulate_runs [of vertices] obtain rest clipped where
    r: "clipLoop (normalized vertices) [] = Some (Inr (rest, clipped))"
      "length clipped + length rest = length vertices"
      "triangulate vertices =
        (if 3 \<le> length vertices
         then Some (Inr (clipped @ [[rest ! 0, rest ! 1, rest ! 2]], rest))
         else Some (Inl (OutOfRange In_last_triangle (length vertices))))"
    by blast
  from r(2) have "length rest \<le> length vertices"
    and "length (clipped @ [[rest ! 0, rest ! 1, rest ! 2]]) = length vertices - length rest + 1"
    by simp_all
  with r(1,3) long show ?thesis by auto
qed

text \<open>
  The collinear points, where the no-ear exit is taken: five vertices in, five left,
  \<open>5 - 5 + 1 = 1\<close> triangle. The polygon of \<^verbatim>\<open>main\<close>, clipped to the end: five in,
  three left, \<open>5 - 3 + 1 = 3\<close> triangles.
\<close>

theorem triangle_count_invariant_witness:
  "3 \<le> length collinear \<and>
   triangulate collinear =
     Some (Inr ([[pt 4 0, pt 3 0, pt 2 0]], [pt 4 0, pt 3 0, pt 2 0, pt 1 0, pt 0 0])) \<and>
   length [[pt 4 0, pt 3 0, pt 2 0]] =
     length collinear - length [pt 4 0, pt 3 0, pt 2 0, pt 1 0, pt 0 0] + 1 \<and>
   3 \<le> length polygon \<and>
   triangulate polygon =
     Some (Inr ([[pt (-2) 1, pt 1 1, pt 0 0],
                 [pt (-1) (-1), pt (-2) 1, pt 0 0],
                 [pt (-1) (-1), pt 0 0, pt 3 (-1)]],
                [pt (-1) (-1), pt 0 0, pt 3 (-1)])) \<and>
   length [[pt (-2) 1, pt 1 1, pt 0 0],
           [pt (-1) (-1), pt (-2) 1, pt 0 0],
           [pt (-1) (-1), pt 0 0, pt 3 (-1)]] =
     length polygon - length [pt (-1) (-1), pt 0 0, pt 3 (-1)] + 1"
proof -
  have long: "3 \<le> length collinear" by (simp add: collinear_def)
  from triangle_count_invariant [OF long] obtain clipped rest where
    r: "clipLoop (normalized collinear) [] = Some (Inr (rest, clipped))"
      "triangulate collinear = Some (Inr (clipped @ [[rest ! 0, rest ! 1, rest ! 2]], rest))"
      "length (clipped @ [[rest ! 0, rest ! 1, rest ! 2]]) = length collinear - length rest + 1"
    by blast
  have "clipLoop (normalized collinear) [] =
      Some (Inr ([pt 4 0, pt 3 0, pt 2 0, pt 1 0, pt 0 0], []))"
    by code_simp
  with r(1) have "rest = [pt 4 0, pt 3 0, pt 2 0, pt 1 0, pt 0 0]" and "clipped = []"
    by simp_all
  with r(2,3) have first: "triangulate collinear =
      Some (Inr ([[pt 4 0, pt 3 0, pt 2 0]], [pt 4 0, pt 3 0, pt 2 0, pt 1 0, pt 0 0]))"
    "length [[pt 4 0, pt 3 0, pt 2 0]] =
      length collinear - length [pt 4 0, pt 3 0, pt 2 0, pt 1 0, pt 0 0] + 1"
    by simp_all
  have long': "3 \<le> length polygon" by (simp add: polygon_def)
  from triangle_count_invariant [OF long'] obtain clipped' rest' where
    r': "triangulate polygon =
        Some (Inr (clipped' @ [[rest' ! 0, rest' ! 1, rest' ! 2]], rest'))"
      "length (clipped' @ [[rest' ! 0, rest' ! 1, rest' ! 2]]) =
        length polygon - length rest' + 1"
    by blast
  from r'(1) polygon_result
  have "(clipped' @ [[rest' ! 0, rest' ! 1, rest' ! 2]], rest') =
      ([[pt (-2) 1, pt 1 1, pt 0 0], [pt (-1) (-1), pt (-2) 1, pt 0 0],
        [pt (-1) (-1), pt 0 0, pt 3 (-1)]], [pt (-1) (-1), pt 0 0, pt 3 (-1)])"
    by (simp only: option.inject sum.inject)
  then have "clipped' @ [[rest' ! 0, rest' ! 1, rest' ! 2]] =
      [[pt (-2) 1, pt 1 1, pt 0 0], [pt (-1) (-1), pt (-2) 1, pt 0 0],
       [pt (-1) (-1), pt 0 0, pt 3 (-1)]]"
    and "rest' = [pt (-1) (-1), pt 0 0, pt 3 (-1)]"
    by blast+
  with r'(2) have second: "length [[pt (-2) 1, pt 1 1, pt 0 0],
           [pt (-1) (-1), pt (-2) 1, pt 0 0],
           [pt (-1) (-1), pt 0 0, pt 3 (-1)]] =
     length polygon - length [pt (-1) (-1), pt 0 0, pt 3 (-1)] + 1"
    by simp
  from long first long' polygon_result second show ?thesis by blast
qed

end
